theory Spec2Isabelle
  imports Complex_Main "HOL-Library.AList"
begin

section \<open>Data model of the pressure engine (src/hologram/pressure.py)\<close>

text \<open>
  Conventions of the embedding.
  \<^item> A Python \<open>float\<close> is a \<open>real\<close>: rounding is not modelled, so every
    statement about sums and products is about the exact values.
  \<^item> A Python \<open>int\<close> is an \<open>int\<close>.
  \<^item> A Python \<open>dict\<close> is an association list in insertion order; its keys
    are distinct. \<open>d[k] = v\<close> is \<open>AList.update k v d\<close> (overwrite in place, or
    append a new key at the end), \<open>k in d\<close> is \<open>map_of d k \<noteq> None\<close>.
  \<^item> A Python \<open>set\<close> of strings is a list without repetitions.
  \<^item> The functions mutate the file objects in place and return the delta
    dictionary; the model returns the new file dictionary together with the
    deltas.
  \<^item> An exception is a value of \<open>py_error\<close> on the left of a sum.
\<close>

datatype py_error = KeyError | ZeroDivisionError

text \<open>
  Modelled from the spec: the class \<open>CognitiveFile\<close> lives in
  \<open>hologram/system.py\<close>, which is not part of the sources at hand. The
  fields are the ones the spec lists for a file node and the tests pass to the
  constructor.
\<close>

record CognitiveFile =
  raw_pressure :: real
  pressure_bucket :: int
  last_activated :: int
  activation_count :: int
  consecutive_hot_turns :: int
  basin_depth :: real
  last_resurrected :: int

record PressureConfig =
  activation_boost :: real
  edge_flow_rate :: real
  flow_decay_per_hop :: real
  max_propagation_hops :: int
  decay_rate :: real
  decay_immunity_turns :: int
  enable_conservation :: bool
  total_pressure_budget :: real
  hot_propagates :: bool
  min_pressure_to_propagate :: real

text \<open>The defaults of the dataclass \<open>PressureConfig\<close>.\<close>

definition PressureConfig_default :: PressureConfig where
  "PressureConfig_default =
     \<lparr> activation_boost = 4 / 10,
       edge_flow_rate = 15 / 100,
       flow_decay_per_hop = 7 / 10,
       max_propagation_hops = 2,
       decay_rate = 85 / 100,
       decay_immunity_turns = 2,
       enable_conservation = True,
       total_pressure_budget = 10,
       hot_propagates = True,
       min_pressure_to_propagate = 8 / 10 \<rparr>"

type_synonym files = "(string \<times> CognitiveFile) list"
type_synonym deltas = "(string \<times> real) list"

text \<open>
  \<open>quantize_pressure\<close> and \<open>HOT_THRESHOLD\<close> are imported from
  \<open>hologram/coordinates.py\<close>, which is not part of the sources at hand. Every
  operation below takes the quantiser as its first argument \<open>qp\<close>, and
  \<open>get_pressure_stats\<close> takes the threshold.
\<close>

type_synonym quantizer = "real \<Rightarrow> int"

subsection \<open>apply_activation\<close>

text \<open>
  The optional argument \<open>config=None\<close> of every operation stands for
  \<open>PressureConfig()\<close>; the model takes the configuration itself, and
  \<open>PressureConfig_default\<close> is the value the code substitutes for \<open>None\<close>.

  The drain loop \<open>for path in non_activated\<close>: \<open>files[path]\<close> raises
  \<open>KeyError\<close> on a missing key.
\<close>

fun drain_loop ::
  "quantizer \<Rightarrow> real \<Rightarrow> string list \<Rightarrow> files \<Rightarrow> deltas \<Rightarrow> py_error + files \<times> deltas" where
  "drain_loop qp drain_per_file [] files deltas = Inr (files, deltas)"
| "drain_loop qp drain_per_file (path # rest) files deltas =
     (case map_of files path of
        None \<Rightarrow> Inl KeyError
      | Some f \<Rightarrow>
          (let old = raw_pressure f;
               new = max 0 (old - drain_per_file);
               files' = AList.update path
                          (f\<lparr>raw_pressure := new, pressure_bucket := qp new\<rparr>) files
           in drain_loop qp drain_per_file rest files'
                (AList.update path (new - old) deltas)))"

text \<open>The boost loop \<open>for path in activated_paths: if path in files: ...\<close>.\<close>

fun boost_loop ::
  "quantizer \<Rightarrow> PressureConfig \<Rightarrow> string list \<Rightarrow> files \<Rightarrow> deltas \<Rightarrow> files \<times> deltas" where
  "boost_loop qp config [] files deltas = (files, deltas)"
| "boost_loop qp config (path # rest) files deltas =
     (case map_of files path of
        None \<Rightarrow> boost_loop qp config rest files deltas
      | Some f \<Rightarrow>
          (let old = raw_pressure f;
               new = min 1 (old + activation_boost config);
               files' = AList.update path
                          (f\<lparr>raw_pressure := new, pressure_bucket := qp new\<rparr>) files
           in boost_loop qp config rest files'
                (AList.update path (new - old) deltas)))"

definition apply_activation ::
  "quantizer \<Rightarrow> files \<Rightarrow> string list \<Rightarrow> PressureConfig \<Rightarrow> py_error + files \<times> deltas" where
  "apply_activation qp files activated_paths config =
     (if activated_paths = [] then Inr (files, [])
      else
        let total_boost = real (length activated_paths) * activation_boost config;
            drained =
              (if enable_conservation config then
                 (let non_activated = filter (\<lambda>p. p \<notin> set activated_paths) (map fst files) in
                  if non_activated \<noteq> [] then
                    drain_loop qp (total_boost / real (length non_activated))
                      non_activated files []
                  else Inr (files, []))
               else Inr (files, []))
        in case drained of
             Inl e \<Rightarrow> Inl e
           | Inr (files1, deltas1) \<Rightarrow>
               Inr (boost_loop qp config activated_paths files1 deltas1))"

subsection \<open>propagate_pressure\<close>

type_synonym adjacency = "(string \<times> string list) list"
type_synonym edge_weights = "(string \<times> (string \<times> real) list) list"

text \<open>\<open>deltas[k] += x\<close> on a \<open>defaultdict(float)\<close>: a missing key reads as \<open>0.0\<close>.\<close>

definition add_delta :: "string \<Rightarrow> real \<Rightarrow> deltas \<Rightarrow> deltas" where
  "add_delta k x deltas =
     AList.update k ((case map_of deltas k of None \<Rightarrow> 0 | Some v \<Rightarrow> v) + x) deltas"

text \<open>
  The weight of an edge: \<open>1.0\<close> unless \<open>edge_weights\<close> is given (and not
  empty), has a row for the source, and the row has the target.
\<close>

definition edge_weight :: "edge_weights option \<Rightarrow> string \<Rightarrow> string \<Rightarrow> real" where
  "edge_weight edge_weights path target_path =
     (case edge_weights of
        None \<Rightarrow> 1
      | Some ew \<Rightarrow>
          (case map_of ew path of
             None \<Rightarrow> 1
           | Some row \<Rightarrow> (case map_of row target_path of None \<Rightarrow> 1 | Some w \<Rightarrow> w)))"

text \<open>The inner loop \<open>for target_path in outgoing\<close> of one source \<open>path\<close>.\<close>

fun flow_loop ::
  "files \<Rightarrow> edge_weights option \<Rightarrow> PressureConfig \<Rightarrow> string \<Rightarrow> real \<Rightarrow> string list \<Rightarrow>
   deltas \<Rightarrow> deltas" where
  "flow_loop files edge_weights config path base_flow [] deltas = deltas"
| "flow_loop files edge_weights config path base_flow (target_path # rest) deltas =
     (if map_of files target_path = None
      then flow_loop files edge_weights config path base_flow rest deltas
      else
        (let weight = edge_weight edge_weights path target_path;
             flow = base_flow * weight;
             deltas1 = add_delta target_path flow deltas;
             deltas2 = (if enable_conservation config
                        then add_delta path (- flow) deltas1 else deltas1)
         in flow_loop files edge_weights config path base_flow rest deltas2))"

text \<open>
  The outer loop \<open>for path, file in files.items()\<close>. The dictionary \<open>files\<close>
  is not written during this loop; its first argument is the dictionary, the
  fifth the items still to visit.
\<close>

fun source_loop ::
  "files \<Rightarrow> adjacency \<Rightarrow> edge_weights option \<Rightarrow> PressureConfig \<Rightarrow> files \<Rightarrow>
   deltas \<Rightarrow> deltas" where
  "source_loop files adjacency edge_weights config [] deltas = deltas"
| "source_loop files adjacency edge_weights config ((path, file) # rest) deltas =
     (if hot_propagates config \<and> raw_pressure file < min_pressure_to_propagate config
      then source_loop files adjacency edge_weights config rest deltas
      else
        (let outgoing = (case map_of adjacency path of None \<Rightarrow> [] | Some s \<Rightarrow> s) in
         if outgoing = []
         then source_loop files adjacency edge_weights config rest deltas
         else
           (let base_flow =
                  (if length outgoing > 1
                   then edge_flow_rate config / real (length outgoing)
                   else edge_flow_rate config)
            in source_loop files adjacency edge_weights config rest
                 (flow_loop files edge_weights config path base_flow outgoing deltas))))"

text \<open>The final pass \<open>for path, delta in deltas.items(): if path in files: ...\<close>.\<close>

fun apply_deltas_loop :: "quantizer \<Rightarrow> deltas \<Rightarrow> files \<Rightarrow> files" where
  "apply_deltas_loop qp [] files = files"
| "apply_deltas_loop qp ((path, delta) # rest) files =
     (case map_of files path of
        None \<Rightarrow> apply_deltas_loop qp rest files
      | Some f \<Rightarrow>
          (let old = raw_pressure f;
               new = max 0 (min 1 (old + delta))
           in apply_deltas_loop qp rest
                (AList.update path
                   (f\<lparr>raw_pressure := new, pressure_bucket := qp new\<rparr>) files)))"

definition propagate_pressure ::
  "quantizer \<Rightarrow> files \<Rightarrow> adjacency \<Rightarrow> edge_weights option \<Rightarrow> PressureConfig \<Rightarrow>
   files \<times> deltas" where
  "propagate_pressure qp files adjacency edge_weights config =
     (let deltas = source_loop files adjacency edge_weights config files []
      in (apply_deltas_loop qp deltas files, deltas))"

subsection \<open>apply_decay\<close>

text \<open>
  The loop \<open>for path, file in files.items()\<close> of \<open>apply_decay\<close>: an immune
  file is skipped by \<open>continue\<close>, any other file is multiplied by
  \<open>config.decay_rate\<close>, requantised and entered in \<open>deltas\<close>.
\<close>

fun apply_decay_loop ::
  "quantizer \<Rightarrow> PressureConfig \<Rightarrow> int \<Rightarrow> files \<Rightarrow> deltas \<Rightarrow> files \<times> deltas" where
  "apply_decay_loop qp config current_turn [] deltas = ([], deltas)"
| "apply_decay_loop qp config current_turn ((path, file) # rest) deltas =
     (let turns_since_active = current_turn - last_activated file in
      if turns_since_active < decay_immunity_turns config
      then (let (rest', deltas') = apply_decay_loop qp config current_turn rest deltas
            in ((path, file) # rest', deltas'))
      else (let old = raw_pressure file;
                new = old * decay_rate config;
                file' = file\<lparr>raw_pressure := new, pressure_bucket := qp new\<rparr>;
                (rest', deltas') =
                   apply_decay_loop qp config current_turn rest
                     (AList.update path (new - old) deltas)
            in ((path, file') # rest', deltas')))"

definition apply_decay ::
  "quantizer \<Rightarrow> files \<Rightarrow> int \<Rightarrow> PressureConfig \<Rightarrow> files \<times> deltas" where
  "apply_decay qp files current_turn config =
     apply_decay_loop qp config current_turn files []"

subsection \<open>redistribute_pressure\<close>

text \<open>
  \<open>redistribute_pressure\<close> returns nothing in Python; the model returns the
  file dictionary after the call. The division by \<open>len(files)\<close> in the branch
  \<open>current_total == 0\<close> is unguarded: on an empty dictionary the sum is \<open>0\<close>
  and Python raises \<open>ZeroDivisionError\<close> before any file is touched.
\<close>

definition redistribute_pressure ::
  "quantizer \<Rightarrow> files \<Rightarrow> PressureConfig \<Rightarrow> py_error + files" where
  "redistribute_pressure qp files config =
     (if \<not> enable_conservation config then Inr files
      else
        let current_total = sum_list (map (\<lambda>(path, f). raw_pressure f) files) in
        if current_total = 0 then
          (if length files = 0 then Inl ZeroDivisionError
           else
             let even_pressure = total_pressure_budget config / real (length files) in
             Inr (map (\<lambda>(path, f).
                    (path, f\<lparr>raw_pressure := even_pressure,
                              pressure_bucket := qp even_pressure\<rparr>)) files))
        else
          let scale = total_pressure_budget config / current_total in
          Inr (map (\<lambda>(path, f).
                 (let new = min 1 (raw_pressure f * scale)
                  in (path, f\<lparr>raw_pressure := new, pressure_bucket := qp new\<rparr>))) files))"

subsection \<open>get_pressure_stats\<close>

record PressureStats =
  total_pressure :: real
  avg_pressure :: real
  max_pressure :: real
  min_pressure :: real
  hot_count :: int
  warm_count :: int
  cold_count :: int

text \<open>Python's \<open>max\<close> and \<open>min\<close> of a list, called on non-empty lists only.\<close>

fun py_max :: "real list \<Rightarrow> real" where
  "py_max [] = 0"
| "py_max (x # xs) = fold max xs x"

fun py_min :: "real list \<Rightarrow> real" where
  "py_min [] = 0"
| "py_min (x # xs) = fold min xs x"

definition get_pressure_stats :: "int \<Rightarrow> files \<Rightarrow> PressureStats" where
  "get_pressure_stats HOT_THRESHOLD files =
     (let pressures = map (\<lambda>(path, f). raw_pressure f) files;
          hot = int (length (filter (\<lambda>(path, f). pressure_bucket f \<ge> HOT_THRESHOLD) files));
          warm = int (length (filter (\<lambda>(path, f).
                   20 \<le> pressure_bucket f \<and> pressure_bucket f < HOT_THRESHOLD) files));
          cold = int (length files) - hot - warm
      in \<lparr> total_pressure = sum_list pressures,
           avg_pressure = (if pressures \<noteq> [] then sum_list pressures / real (length pressures) else 0),
           max_pressure = (if pressures \<noteq> [] then py_max pressures else 0),
           min_pressure = (if pressures \<noteq> [] then py_min pressures else 0),
           hot_count = hot,
           warm_count = warm,
           cold_count = cold \<rparr>)"


section \<open>Observations, properties and concrete inputs\<close>

text \<open>The invariants of the data model: every pressure in \<open>[0, 1]\<close>, every
  bucket the quantisation of its pressure.\<close>

definition pressures_bounded :: "files \<Rightarrow> bool" where
  "pressures_bounded files =
     list_all (\<lambda>(path, f). 0 \<le> raw_pressure f \<and> raw_pressure f \<le> 1) files"

definition buckets_consistent :: "quantizer \<Rightarrow> files \<Rightarrow> bool" where
  "buckets_consistent qp files =
     list_all (\<lambda>(path, f). pressure_bucket f = qp (raw_pressure f)) files"

definition total_raw_pressure :: "files \<Rightarrow> real" where
  "total_raw_pressure files = sum_list (map (\<lambda>(path, f). raw_pressure f) files)"

definition pressures :: "files \<Rightarrow> (string \<times> real) list" where
  "pressures files = map (\<lambda>(path, f). (path, raw_pressure f)) files"

text \<open>
  A stand-in for the absent \<open>quantize_pressure\<close>, used only to write closed
  examples; no statement depends on which function it is.
\<close>

definition quantize_sample :: quantizer where
  "quantize_sample p = \<lfloor>max 0 (min 1 p) * 47\<rfloor>"

text \<open>A freshly registered file at a given pressure, last activated at turn 0.\<close>

definition file_at :: "quantizer \<Rightarrow> real \<Rightarrow> CognitiveFile" where
  "file_at qp p =
     \<lparr> raw_pressure = p, pressure_bucket = qp p, last_activated = 0,
       activation_count = 0, consecutive_hot_turns = 0, basin_depth = 1,
       last_resurrected = 0 \<rparr>"

text \<open>The two files of \<open>test_basin_stickiness\<close> (tests/test_basin_dynamics.py).\<close>

definition basin_test_files :: "quantizer \<Rightarrow> files" where
  "basin_test_files qp =
     [(''shallow.md'', (file_at qp (9 / 10))\<lparr>consecutive_hot_turns := 0, basin_depth := 1\<rparr>),
      (''deep.md'', (file_at qp (9 / 10))\<lparr>consecutive_hot_turns := 5, basin_depth := 5 / 2\<rparr>)]"

text \<open>Three files at pressure zero (the start of the spec's end-to-end scenario).\<close>

definition three_cold_files :: "quantizer \<Rightarrow> files" where
  "three_cold_files qp =
     [(''a.md'', file_at qp 0), (''b.md'', file_at qp 0), (''c.md'', file_at qp 0)]"

text \<open>Two files at pressure one half.\<close>

definition two_warm_files :: "quantizer \<Rightarrow> files" where
  "two_warm_files qp = [(''a.md'', file_at qp (1 / 2)), (''b.md'', file_at qp (1 / 2))]"

text \<open>
  The three in-place updates of a file, named for the statements below: the
  drain of \<open>apply_activation\<close>, its boost, and the clamped addition of the
  final pass of \<open>propagate_pressure\<close>.
\<close>

definition drained :: "quantizer \<Rightarrow> real \<Rightarrow> CognitiveFile \<Rightarrow> CognitiveFile" where
  "drained qp drain_per_file f =
     f\<lparr>raw_pressure := max 0 (raw_pressure f - drain_per_file),
       pressure_bucket := qp (max 0 (raw_pressure f - drain_per_file))\<rparr>"

definition boosted :: "quantizer \<Rightarrow> PressureConfig \<Rightarrow> CognitiveFile \<Rightarrow> CognitiveFile" where
  "boosted qp config f =
     f\<lparr>raw_pressure := min 1 (raw_pressure f + activation_boost config),
       pressure_bucket := qp (min 1 (raw_pressure f + activation_boost config))\<rparr>"

definition shifted :: "quantizer \<Rightarrow> real \<Rightarrow> CognitiveFile \<Rightarrow> CognitiveFile" where
  "shifted qp delta f =
     f\<lparr>raw_pressure := max 0 (min 1 (raw_pressure f + delta)),
       pressure_bucket := qp (max 0 (min 1 (raw_pressure f + delta)))\<rparr>"

text \<open>\<open>path in files\<close>.\<close>

definition registered :: "files \<Rightarrow> string \<Rightarrow> bool" where
  "registered files path = (map_of files path \<noteq> None)"

text \<open>A hot file and a warm one.\<close>

definition hot_and_warm_files :: "quantizer \<Rightarrow> files" where
  "hot_and_warm_files qp = [(''a.md'', file_at qp (9 / 10)), (''b.md'', file_at qp (1 / 2))]"

text \<open>
  The propagation claims in their own words, to be compared with
  \<open>propagate_pressure\<close>. \<open>delta_value\<close> reads the returned dictionary with
  default \<open>0.0\<close>. A file \<open>sends\<close> unless the hot gate is on and its pressure
  is below \<open>min_pressure_to_propagate\<close>. The flow along one edge is
  \<open>edge_flow_rate\<close> divided by the number of outgoing edges of the source,
  times the edge weight. \<open>sent_flows\<close> lists the flows \<open>(source, target,
  amount)\<close> of the given items: one for every sending source and every
  registered target of it, all read from the file dictionary as it is before
  the call. \<open>inflow\<close> and \<open>outflow\<close> add up what a file receives and sends.
\<close>

definition delta_value :: "deltas \<Rightarrow> string \<Rightarrow> real" where
  "delta_value deltas k = (case map_of deltas k of None \<Rightarrow> 0 | Some v \<Rightarrow> v)"

definition sends :: "PressureConfig \<Rightarrow> CognitiveFile \<Rightarrow> bool" where
  "sends config f =
     (\<not> (hot_propagates config \<and> raw_pressure f < min_pressure_to_propagate config))"

definition out_edges :: "adjacency \<Rightarrow> string \<Rightarrow> string list" where
  "out_edges adjacency path = (case map_of adjacency path of None \<Rightarrow> [] | Some s \<Rightarrow> s)"

definition edge_flow ::
  "PressureConfig \<Rightarrow> adjacency \<Rightarrow> edge_weights option \<Rightarrow> string \<Rightarrow> string \<Rightarrow> real" where
  "edge_flow config adjacency edge_weights path target_path =
     edge_flow_rate config / real (length (out_edges adjacency path))
       * edge_weight edge_weights path target_path"

definition sent_flows ::
  "files \<Rightarrow> adjacency \<Rightarrow> edge_weights option \<Rightarrow> PressureConfig \<Rightarrow> files \<Rightarrow>
   (string \<times> string \<times> real) list" where
  "sent_flows files adjacency edge_weights config items =
     concat (map (\<lambda>(path, f).
       if sends config f
       then map (\<lambda>t. (path, t, edge_flow config adjacency edge_weights path t))
              (filter (registered files) (out_edges adjacency path))
       else []) items)"

definition inflow ::
  "files \<Rightarrow> adjacency \<Rightarrow> edge_weights option \<Rightarrow> PressureConfig \<Rightarrow> string \<Rightarrow> real" where
  "inflow files adjacency edge_weights config k =
     sum_list (map (\<lambda>(s, t, x). if t = k then x else 0)
       (sent_flows files adjacency edge_weights config files))"

definition outflow ::
  "files \<Rightarrow> adjacency \<Rightarrow> edge_weights option \<Rightarrow> PressureConfig \<Rightarrow> string \<Rightarrow> real" where
  "outflow files adjacency edge_weights config k =
     sum_list (map (\<lambda>(s, t, x). if s = k then x else 0)
       (sent_flows files adjacency edge_weights config files))"

text \<open>The default configuration with the hot gate switched off.\<close>

definition PressureConfig_all_propagate :: PressureConfig where
  "PressureConfig_all_propagate = PressureConfig_default\<lparr>hot_propagates := False\<rparr>"

text \<open>
  The net amount a list of flows adds to the delta of \<open>k\<close>: what arrives at
  \<open>k\<close>, minus, in conserving mode, what leaves \<open>k\<close>. \<open>touched\<close> is the set
  of keys the flows write in the delta dictionary.
\<close>

definition net :: "bool \<Rightarrow> string \<Rightarrow> (string \<times> string \<times> real) list \<Rightarrow> real" where
  "net cons k flows =
     sum_list (map (\<lambda>(s, t, x). (if t = k then x else 0) - (if cons \<and> s = k then x else 0)) flows)"

definition touched :: "bool \<Rightarrow> (string \<times> string \<times> real) list \<Rightarrow> string set" where
  "touched cons flows = (\<Union>(s, t, x)\<in>set flows. if cons then {s, t} else {t})"

text \<open>The default configuration with a budget of one.\<close>

definition PressureConfig_unit_budget :: PressureConfig where
  "PressureConfig_unit_budget = PressureConfig_default\<lparr>total_pressure_budget := 1\<rparr>"

section \<open>Verified properties\<close>

subsection \<open>Decay\<close>

lemma decay_loop_files:
  "fst (apply_decay_loop qp cfg t fs d) =
     map (\<lambda>(p, f). (p, if t - last_activated f < decay_immunity_turns cfg then f
        else f\<lparr>raw_pressure := raw_pressure f * decay_rate cfg,
               pressure_bucket := qp (raw_pressure f * decay_rate cfg)\<rparr>)) fs"
  by (induction fs arbitrary: d) (auto simp: Let_def split_beta)

lemma decay_loop_deltas:
  "distinct (map fst fs) \<Longrightarrow>
   map_of (snd (apply_decay_loop qp cfg t fs d)) p =
     (case map_of fs p of
        None \<Rightarrow> map_of d p
      | Some f \<Rightarrow> if t - last_activated f < decay_immunity_turns cfg then map_of d p
                  else Some (raw_pressure f * decay_rate cfg - raw_pressure f))"
proof (induction fs arbitrary: d)
  case Nil
  then show ?case by simp
next
  case (Cons a fs)
  obtain k f where a: "a = (k, f)" by (cases a)
  from Cons.prems a have dist: "distinct (map fst fs)" and notin: "k \<notin> fst ` set fs" by auto
  from notin have none: "map_of fs k = None" by (simp add: map_of_eq_None_iff)
  show ?case using Cons.IH[OF dist] none
    by (auto simp: a Let_def update_conv' split_beta split: option.splits)
qed

text \<open>
  C9 (decay immunity frame). A registered file inside the immunity window
  (\<open>current_turn - last_activated < decay_immunity_turns\<close>) comes out of
  \<open>apply_decay\<close> unchanged, pressure and bucket included, and has no entry
  in the returned deltas. A registered file outside the window is the one that
  is decayed: its pressure is multiplied by \<open>decay_rate\<close>, its bucket is
  requantised, and its delta is the difference.
\<close>

theorem apply_decay_immunity_frame:
  assumes "distinct (map fst files)" and "map_of files path = Some file"
  shows "(current_turn - last_activated file < decay_immunity_turns config \<longrightarrow>
            map_of (fst (apply_decay qp files current_turn config)) path = Some file \<and>
            map_of (snd (apply_decay qp files current_turn config)) path = None) \<and>
         (\<not> current_turn - last_activated file < decay_immunity_turns config \<longrightarrow>
            map_of (fst (apply_decay qp files current_turn config)) path =
              Some (file\<lparr>raw_pressure := raw_pressure file * decay_rate config,
                        pressure_bucket := qp (raw_pressure file * decay_rate config)\<rparr>) \<and>
            map_of (snd (apply_decay qp files current_turn config)) path =
              Some (raw_pressure file * decay_rate config - raw_pressure file))"
  using assms
  by (simp add: apply_decay_def decay_loop_files decay_loop_deltas map_of_map)

theorem apply_decay_immunity_frame_witness:
  "distinct (map fst (three_cold_files quantize_sample)) \<and>
   map_of (three_cold_files quantize_sample) ''b.md'' = Some (file_at quantize_sample 0) \<and>
   1 - last_activated (file_at quantize_sample 0) < decay_immunity_turns PressureConfig_default \<and>
   map_of (fst (apply_decay quantize_sample (three_cold_files quantize_sample) 1
                  PressureConfig_default)) ''b.md'' = Some (file_at quantize_sample 0) \<and>
   map_of (snd (apply_decay quantize_sample (three_cold_files quantize_sample) 1
                  PressureConfig_default)) ''b.md'' = None \<and>
   \<not> 10 - last_activated (file_at quantize_sample 0) < decay_immunity_turns PressureConfig_default \<and>
   map_of (snd (apply_decay quantize_sample (three_cold_files quantize_sample) 10
                  PressureConfig_default)) ''b.md'' = Some 0"
proof -
  have d: "distinct (map fst (three_cold_files quantize_sample))"
    by (simp add: three_cold_files_def)
  have m: "map_of (three_cold_files quantize_sample) ''b.md'' = Some (file_at quantize_sample 0)"
    by (simp add: three_cold_files_def)
  have i: "1 - last_activated (file_at quantize_sample 0) < decay_immunity_turns PressureConfig_default"
    by (simp add: file_at_def PressureConfig_default_def)
  have n: "\<not> 10 - last_activated (file_at quantize_sample 0) < decay_immunity_turns PressureConfig_default"
    by (simp add: file_at_def PressureConfig_default_def)
  show ?thesis
    using d m i n
      apply_decay_immunity_frame [OF d m, of 1 PressureConfig_default quantize_sample]
      apply_decay_immunity_frame [OF d m, of 10 PressureConfig_default quantize_sample]
    by (simp add: file_at_def)
qed

text \<open>
  C3 (basin-aware decay). \<open>apply_decay\<close> multiplies by \<open>decay_rate\<close> alone
  and never reads \<open>basin_depth\<close>. On the two files of
  \<open>test_basin_stickiness\<close> (equal pressure \<open>0.9\<close>, basin depths \<open>1.0\<close> and
  \<open>2.5\<close>, turn 10, default configuration) both files end at \<open>0.765\<close>: the
  deeper basin is not strictly above the shallow one.
\<close>

theorem apply_decay_ignores_basin_depth:
  "pressures (fst (apply_decay qp (basin_test_files qp) 10 PressureConfig_default))
     = [(''shallow.md'', 153 / 200), (''deep.md'', 153 / 200)]"
  by (simp add: apply_decay_def basin_test_files_def file_at_def PressureConfig_default_def
      pressures_def Let_def)

subsection \<open>Edge cases of redistribute_pressure and get_pressure_stats\<close>

lemma get_pressure_stats_empty:
  "get_pressure_stats hot [] =
     \<lparr> total_pressure = 0, avg_pressure = 0, max_pressure = 0, min_pressure = 0,
       hot_count = 0, warm_count = 0, cold_count = 0 \<rparr>"
  by (simp add: get_pressure_stats_def)

text \<open>
  C6 (totality on the empty file map). With conservation enabled (the default),
  \<open>redistribute_pressure\<close> on an empty file dictionary computes a total of
  zero, enters the even-redistribution branch and divides the budget by
  \<open>len(files) = 0\<close>: the call raises \<open>ZeroDivisionError\<close>.
\<close>

theorem redistribute_pressure_empty_raises:
  "redistribute_pressure qp [] PressureConfig_default = Inl ZeroDivisionError"
  by (simp add: redistribute_pressure_def PressureConfig_default_def)

text \<open>
  C1 (boundedness). Three files at pressure zero, default configuration: every
  pressure is in \<open>[0, 1]\<close> before the call, \<open>redistribute_pressure\<close> takes
  the even-redistribution branch and sets every file to \<open>10 / 3\<close>, which is
  above \<open>1\<close>. The scaling branch clamps at \<open>1.0\<close>; this branch does not.
\<close>

theorem redistribute_pressure_even_branch_unbounded:
  "pressures_bounded (three_cold_files qp) \<and>
   (\<exists>files'. redistribute_pressure qp (three_cold_files qp) PressureConfig_default = Inr files'
      \<and> pressures files' = [(''a.md'', 10 / 3), (''b.md'', 10 / 3), (''c.md'', 10 / 3)]
      \<and> \<not> pressures_bounded files')"
  by (simp add: redistribute_pressure_def PressureConfig_default_def three_cold_files_def
      file_at_def pressures_def pressures_bounded_def Let_def)

subsection \<open>Bucket consistency\<close>

lemma buckets_consistent_update:
  "buckets_consistent qp fs \<Longrightarrow> pressure_bucket f' = qp (raw_pressure f') \<Longrightarrow>
   buckets_consistent qp (AList.update k f' fs)"
  by (induction fs) (auto simp: buckets_consistent_def)

lemma update_keys_known:
  "map_of fs k = Some v \<Longrightarrow> map fst (AList.update k v' fs) = map fst fs"
  by (induction fs) (auto split: if_splits)

lemma drain_loop_total:
  "set ps \<subseteq> fst ` set fs \<Longrightarrow> \<exists>fs' d'. drain_loop qp dr ps fs d = Inr (fs', d')"
proof (induction ps arbitrary: fs d)
  case Nil
  then show ?case by simp
next
  case (Cons p ps)
  from Cons.prems have "map_of fs p \<noteq> None"
    by (simp add: map_of_eq_None_iff)
  then obtain f where f: "map_of fs p = Some f" by blast
  have "set ps \<subseteq> fst ` set (AList.update p v fs)" for v
    using Cons.prems by (auto simp: dom_update)
  from Cons.IH[OF this] show ?case by (simp add: f Let_def)
qed

lemma drain_loop_consistent:
  "buckets_consistent qp fs \<Longrightarrow> drain_loop qp dr ps fs d = Inr (fs', d') \<Longrightarrow>
   buckets_consistent qp fs'"
proof (induction ps arbitrary: fs d)
  case Nil
  then show ?case by simp
next
  case (Cons p ps)
  show ?case
  proof (cases "map_of fs p")
    case None
    with Cons.prems show ?thesis by simp
  next
    case (Some f)
    let ?f' = "f\<lparr>raw_pressure := max 0 (raw_pressure f - dr),
                  pressure_bucket := qp (max 0 (raw_pressure f - dr))\<rparr>"
    have "buckets_consistent qp (AList.update p ?f' fs)"
      using Cons.prems(1) by (rule buckets_consistent_update) simp
    moreover have "drain_loop qp dr ps (AList.update p ?f' fs)
        (AList.update p (max 0 (raw_pressure f - dr) - raw_pressure f) d) = Inr (fs', d')"
      using Cons.prems(2) Some by (simp add: Let_def)
    ultimately show ?thesis by (rule Cons.IH)
  qed
qed

lemma boost_loop_consistent:
  "buckets_consistent qp fs \<Longrightarrow> buckets_consistent qp (fst (boost_loop qp cfg ps fs d))"
proof (induction ps arbitrary: fs d)
  case Nil
  then show ?case by simp
next
  case (Cons p ps)
  show ?case
  proof (cases "map_of fs p")
    case None
    with Cons show ?thesis by simp
  next
    case (Some f)
    let ?f' = "f\<lparr>raw_pressure := min 1 (raw_pressure f + activation_boost cfg),
                  pressure_bucket := qp (min 1 (raw_pressure f + activation_boost cfg))\<rparr>"
    have "buckets_consistent qp (AList.update p ?f' fs)"
      using Cons.prems by (rule buckets_consistent_update) simp
    from Cons.IH[OF this] show ?thesis using Some by (simp add: Let_def)
  qed
qed

lemma apply_deltas_loop_consistent:
  "buckets_consistent qp fs \<Longrightarrow> buckets_consistent qp (apply_deltas_loop qp ds fs)"
proof (induction ds arbitrary: fs)
  case Nil
  then show ?case by simp
next
  case (Cons a ds)
  obtain p dl where a: "a = (p, dl)" by (cases a)
  show ?case
  proof (cases "map_of fs p")
    case None
    with Cons a show ?thesis by simp
  next
    case (Some f)
    let ?f' = "f\<lparr>raw_pressure := max 0 (min 1 (raw_pressure f + dl)),
                  pressure_bucket := qp (max 0 (min 1 (raw_pressure f + dl)))\<rparr>"
    have "buckets_consistent qp (AList.update p ?f' fs)"
      using Cons.prems by (rule buckets_consistent_update) simp
    from Cons.IH[OF this] show ?thesis using Some a by (simp add: Let_def)
  qed
qed

lemma non_activated_known:
  "set (filter (\<lambda>p. p \<notin> set acts) (map fst fs)) \<subseteq> fst ` set fs"
  by auto

lemma apply_activation_total:
  "\<exists>fs' d'. apply_activation qp fs acts cfg = Inr (fs', d')"
proof -
  have "\<exists>fs1 d1. drain_loop qp dr (filter (\<lambda>p. p \<notin> set acts) (map fst fs)) fs [] = Inr (fs1, d1)" for dr
    by (rule drain_loop_total) (rule non_activated_known)
  then have "drain_loop qp dr (filter (\<lambda>p. p \<notin> set acts) (map fst fs)) fs [] \<noteq> Inl e" for dr e
    by (metis sum.distinct(1))
  then show ?thesis
    by (auto simp: apply_activation_def Let_def split: sum.splits)
qed

lemma apply_activation_consistent:
  assumes "buckets_consistent qp fs" and "apply_activation qp fs acts cfg = Inr (fs', d')"
  shows "buckets_consistent qp fs'"
proof (cases "acts = []")
  case True
  with assms show ?thesis by (simp add: apply_activation_def)
next
  case False
  let ?drained = "(if enable_conservation cfg then
                 (let non_activated = filter (\<lambda>p. p \<notin> set acts) (map fst fs) in
                  if non_activated \<noteq> [] then
                    drain_loop qp (real (length acts) * activation_boost cfg / real (length non_activated))
                      non_activated fs []
                  else Inr (fs, []))
               else Inr (fs, []))"
  from assms(2) False obtain fs1 d1 where dr: "?drained = Inr (fs1, d1)"
    and res: "boost_loop qp cfg acts fs1 d1 = (fs', d')"
    by (auto simp: apply_activation_def Let_def split: sum.splits)
  from dr assms(1) have "buckets_consistent qp fs1"
    by (auto simp: Let_def split: if_splits dest: drain_loop_consistent)
  from boost_loop_consistent[OF this, of cfg acts d1] res show ?thesis by simp
qed

lemma decay_consistent:
  "buckets_consistent qp fs \<Longrightarrow> buckets_consistent qp (fst (apply_decay qp fs t cfg))"
  by (auto simp: apply_decay_def decay_loop_files buckets_consistent_def list_all_iff)

lemma redistribute_consistent:
  "buckets_consistent qp fs \<Longrightarrow> redistribute_pressure qp fs cfg = Inr fs' \<Longrightarrow>
   buckets_consistent qp fs'"
  by (auto simp: redistribute_pressure_def buckets_consistent_def list_all_iff Let_def
      split: if_splits)

lemma redistribute_raises_iff:
  "redistribute_pressure qp fs cfg = Inl e \<longleftrightarrow>
     e = ZeroDivisionError \<and> enable_conservation cfg \<and> fs = []"
  by (auto simp: redistribute_pressure_def Let_def)

text \<open>
  C8 (bucket consistency). If every file's \<open>pressure_bucket\<close> is the
  quantisation of its \<open>raw_pressure\<close>, the same holds after
  \<open>apply_activation\<close> (which always returns), after \<open>propagate_pressure\<close>,
  after \<open>apply_decay\<close> and after \<open>redistribute_pressure\<close>; the last one
  raises only on the empty dictionary, where there is no file to be inconsistent.
\<close>

theorem operations_keep_buckets_consistent:
  assumes "buckets_consistent qp files"
  shows "(\<exists>files' deltas. apply_activation qp files activated_paths config = Inr (files', deltas)
            \<and> buckets_consistent qp files') \<and>
         buckets_consistent qp (fst (propagate_pressure qp files adjacency edge_weights config)) \<and>
         buckets_consistent qp (fst (apply_decay qp files current_turn config)) \<and>
         (case redistribute_pressure qp files config of
            Inr files' \<Rightarrow> buckets_consistent qp files'
          | Inl e \<Rightarrow> files = [])"
proof -
  obtain fs' d' where a: "apply_activation qp files activated_paths config = Inr (fs', d')"
    using apply_activation_total by blast
  have 1: "buckets_consistent qp fs'"
    using assms a by (rule apply_activation_consistent)
  have 2: "buckets_consistent qp (fst (propagate_pressure qp files adjacency edge_weights config))"
    using assms by (simp add: propagate_pressure_def Let_def apply_deltas_loop_consistent)
  have 3: "buckets_consistent qp (fst (apply_decay qp files current_turn config))"
    using assms by (rule decay_consistent)
  have 4: "(case redistribute_pressure qp files config of
            Inr files' \<Rightarrow> buckets_consistent qp files'
          | Inl e \<Rightarrow> files = [])"
    using assms by (auto split: sum.splits simp: redistribute_raises_iff dest: redistribute_consistent)
  from a 1 2 3 4 show ?thesis by blast
qed


theorem operations_keep_buckets_consistent_witness:
  "buckets_consistent quantize_sample (three_cold_files quantize_sample) \<and>
   (\<exists>files' deltas.
      apply_activation quantize_sample (three_cold_files quantize_sample) [''a.md'']
        PressureConfig_default = Inr (files', deltas) \<and>
      buckets_consistent quantize_sample files') \<and>
   buckets_consistent quantize_sample
     (fst (apply_decay quantize_sample (three_cold_files quantize_sample) 10
        PressureConfig_default))"
proof -
  have h: "buckets_consistent quantize_sample (three_cold_files quantize_sample)"
    by (simp add: buckets_consistent_def three_cold_files_def file_at_def)
  show ?thesis
    using h operations_keep_buckets_consistent [OF h, of "[''a.md'']" PressureConfig_default
        "[]" None 10]
    by blast
qed

subsection \<open>Conservation correction\<close>

lemma sum_list_min_le:
  "sum_list (map (\<lambda>x. min 1 (g x)) xs) \<le> sum_list (map g xs)" for g :: "'a \<Rightarrow> real"
  by (induction xs) auto

lemma sum_list_min_eq:
  "list_all (\<lambda>x. g x \<le> 1) xs \<Longrightarrow> sum_list (map (\<lambda>x. min 1 (g x)) xs) = sum_list (map g xs)"
  for g :: "'a \<Rightarrow> real"
  by (induction xs) auto

lemma sum_list_min_less:
  "\<not> list_all (\<lambda>x. g x \<le> 1) xs \<Longrightarrow> sum_list (map (\<lambda>x. min 1 (g x)) xs) < sum_list (map g xs)"
  for g :: "'a \<Rightarrow> real"
proof (induction xs)
  case Nil
  then show ?case by simp
next
  case (Cons a xs)
  show ?case
  proof (cases "g a \<le> 1")
    case True
    with Cons show ?thesis by simp
  next
    case False
    with sum_list_min_le[of g xs] show ?thesis by simp
  qed
qed

lemma total_scaled:
  "sum_list (map (\<lambda>(path, f). raw_pressure f * s) fs) = total_raw_pressure fs * s"
  by (induction fs) (auto simp: total_raw_pressure_def algebra_simps)

lemma total_clamped:
  "total_raw_pressure (map (\<lambda>(path, f).
       (let new = min 1 (raw_pressure f * s)
        in (path, f\<lparr>raw_pressure := new, pressure_bucket := qp new\<rparr>))) fs)
     = sum_list (map (\<lambda>(path, f). min 1 (raw_pressure f * s)) fs)"
  by (induction fs) (auto simp: total_raw_pressure_def Let_def)

text \<open>
  C2 (conservation correction), as the code has it by design. With
  conservation enabled and a total pressure different from zero,
  \<open>redistribute_pressure\<close> returns and scales every pressure by
  \<open>total_pressure_budget / current_total\<close>, clamping at \<open>1.0\<close>. When no
  scaled pressure exceeds \<open>1.0\<close> the sum of the pressures afterwards equals
  \<open>total_pressure_budget\<close>; as soon as one scaled pressure is clamped the
  sum is strictly below the budget.
\<close>

theorem redistribute_pressure_conservation:
  assumes "enable_conservation config" and "total_raw_pressure files \<noteq> 0"
  shows "\<exists>files'. redistribute_pressure qp files config = Inr files' \<and>
     (list_all (\<lambda>(path, f). raw_pressure f *
          (total_pressure_budget config / total_raw_pressure files) \<le> 1) files
        \<longrightarrow> total_raw_pressure files' = total_pressure_budget config) \<and>
     (\<not> list_all (\<lambda>(path, f). raw_pressure f *
          (total_pressure_budget config / total_raw_pressure files) \<le> 1) files
        \<longrightarrow> total_raw_pressure files' < total_pressure_budget config)"
proof -
  let ?s = "total_pressure_budget config / total_raw_pressure files"
  let ?g = "\<lambda>(path, f). raw_pressure f * ?s"
  let ?fs' = "map (\<lambda>(path, f).
       (let new = min 1 (raw_pressure f * ?s)
        in (path, f\<lparr>raw_pressure := new, pressure_bucket := qp new\<rparr>))) files"
  have r: "redistribute_pressure qp files config = Inr ?fs'"
    using assms by (simp add: redistribute_pressure_def total_raw_pressure_def[symmetric] Let_def)
  have t: "total_raw_pressure ?fs' = sum_list (map (\<lambda>x. min 1 (?g x)) files)"
    unfolding total_clamped by (rule arg_cong[where f=sum_list]) (simp add: split_def)
  have g: "sum_list (map ?g files) = total_pressure_budget config"
    using assms(2) total_scaled[of ?s files] by simp
  have 1: "list_all (\<lambda>x. ?g x \<le> 1) files \<Longrightarrow> total_raw_pressure ?fs' = total_pressure_budget config"
    using sum_list_min_eq[of ?g files] t g by simp
  have 2: "\<not> list_all (\<lambda>x. ?g x \<le> 1) files \<Longrightarrow> total_raw_pressure ?fs' < total_pressure_budget config"
    using sum_list_min_less[of ?g files] t g by simp
  have e: "(\<lambda>x. ?g x \<le> 1) = (\<lambda>(path, f). raw_pressure f * ?s \<le> 1)"
    by (simp add: split_def)
  show ?thesis using r 1 2 unfolding e by blast
qed

theorem redistribute_pressure_conservation_witness:
  "enable_conservation PressureConfig_unit_budget \<and>
   total_raw_pressure (hot_and_warm_files quantize_sample) \<noteq> 0 \<and>
   list_all (\<lambda>(path, f). raw_pressure f *
       (total_pressure_budget PressureConfig_unit_budget /
        total_raw_pressure (hot_and_warm_files quantize_sample)) \<le> 1)
     (hot_and_warm_files quantize_sample) \<and>
   (\<exists>files'. redistribute_pressure quantize_sample (hot_and_warm_files quantize_sample)
        PressureConfig_unit_budget = Inr files' \<and>
      total_raw_pressure files' = total_pressure_budget PressureConfig_unit_budget) \<and>
   enable_conservation PressureConfig_default \<and>
   total_raw_pressure (two_warm_files quantize_sample) \<noteq> 0 \<and>
   \<not> list_all (\<lambda>(path, f). raw_pressure f *
       (total_pressure_budget PressureConfig_default /
        total_raw_pressure (two_warm_files quantize_sample)) \<le> 1)
     (two_warm_files quantize_sample) \<and>
   (\<exists>files'. redistribute_pressure quantize_sample (two_warm_files quantize_sample)
        PressureConfig_default = Inr files' \<and>
      total_raw_pressure files' < total_pressure_budget PressureConfig_default)"
proof -
  let ?hw = "hot_and_warm_files quantize_sample"
  let ?tw = "two_warm_files quantize_sample"
  have u1: "enable_conservation PressureConfig_unit_budget"
    by (simp add: PressureConfig_unit_budget_def PressureConfig_default_def)
  have u2: "total_raw_pressure ?hw \<noteq> 0"
    by (simp add: hot_and_warm_files_def total_raw_pressure_def file_at_def)
  have u3: "list_all (\<lambda>(path, f). raw_pressure f *
       (total_pressure_budget PressureConfig_unit_budget / total_raw_pressure ?hw) \<le> 1) ?hw"
    by (simp add: hot_and_warm_files_def total_raw_pressure_def file_at_def
        PressureConfig_unit_budget_def PressureConfig_default_def)
  have d1: "enable_conservation PressureConfig_default"
    by (simp add: PressureConfig_default_def)
  have d2: "total_raw_pressure ?tw \<noteq> 0"
    by (simp add: two_warm_files_def total_raw_pressure_def file_at_def)
  have d3: "\<not> list_all (\<lambda>(path, f). raw_pressure f *
       (total_pressure_budget PressureConfig_default / total_raw_pressure ?tw) \<le> 1) ?tw"
    by (simp add: two_warm_files_def total_raw_pressure_def file_at_def PressureConfig_default_def)
  from redistribute_pressure_conservation [OF u1 u2, of quantize_sample] u3
  have a: "\<exists>files'. redistribute_pressure quantize_sample ?hw PressureConfig_unit_budget = Inr files' \<and>
      total_raw_pressure files' = total_pressure_budget PressureConfig_unit_budget"
    by blast
  from redistribute_pressure_conservation [OF d1 d2, of quantize_sample] d3
  have b: "\<exists>files'. redistribute_pressure quantize_sample ?tw PressureConfig_default = Inr files' \<and>
      total_raw_pressure files' < total_pressure_budget PressureConfig_default"
    by blast
  from u1 u2 u3 a d1 d2 d3 b show ?thesis by (intro conjI)
qed

text \<open>
  The claim as stated fails when a scaled pressure is clamped: two files at
  \<open>0.5\<close> under the default budget \<open>10.0\<close> are scaled by \<open>10\<close>, clamped to
  \<open>1.0\<close> each, and sum to \<open>2\<close>.
\<close>

theorem redistribute_pressure_clamp_breaks_budget:
  "redistribute_pressure quantize_sample (two_warm_files quantize_sample) PressureConfig_default
     = Inr [(''a.md'', file_at quantize_sample 1), (''b.md'', file_at quantize_sample 1)] \<and>
   total_raw_pressure [(''a.md'', file_at quantize_sample 1), (''b.md'', file_at quantize_sample 1)] = 2 \<and>
   \<not> \<bar>2 - total_pressure_budget PressureConfig_default\<bar> < 1 / 1000000"
  by (simp add: redistribute_pressure_def two_warm_files_def file_at_def PressureConfig_default_def
      total_raw_pressure_def Let_def)

subsection \<open>Activation\<close>

lemma boost_loop_keys:
  "map fst (fst (boost_loop qp cfg ps fs d)) = map fst fs"
proof (induction ps arbitrary: fs d)
  case Nil
  then show ?case by simp
next
  case (Cons p ps)
  then show ?case
    by (cases "map_of fs p") (simp_all add: Let_def update_keys_known)
qed









subsection \<open>Unknown ids\<close>

lemma registered_iff: "registered fs p \<longleftrightarrow> p \<in> fst ` set fs"
  by (simp add: registered_def map_of_eq_None_iff)

lemma unregistered_no_entry:
  "fst ` set d \<subseteq> fst ` set fs \<Longrightarrow> \<not> registered fs p \<Longrightarrow> map_of d p = None"
  by (auto simp: registered_iff map_of_eq_None_iff)

lemma drain_loop_keys:
  "drain_loop qp dr ps fs d = Inr (fs', d') \<Longrightarrow>
   map fst fs' = map fst fs \<and> fst ` set d' \<subseteq> fst ` set d \<union> set ps"
proof (induction ps arbitrary: fs d)
  case Nil
  then show ?case by simp
next
  case (Cons p ps)
  show ?case
  proof (cases "map_of fs p")
    case None
    with Cons.prems show ?thesis by simp
  next
    case (Some f)
    let ?fs1 = "AList.update p (drained qp dr f) fs"
    let ?d1 = "AList.update p (max 0 (raw_pressure f - dr) - raw_pressure f) d"
    have run: "drain_loop qp dr ps ?fs1 ?d1 = Inr (fs', d')"
      using Cons.prems Some by (simp add: Let_def drained_def)
    from Cons.IH[OF run] have k: "map fst fs' = map fst ?fs1"
      and d: "fst ` set d' \<subseteq> fst ` set ?d1 \<union> set ps" by blast+
    have "map fst fs' = map fst fs"
      using k update_keys_known[OF Some, of "drained qp dr f"] by simp
    moreover have "fst ` set ?d1 = insert p (fst ` set d)"
      by (simp add: dom_update)
    with d have "fst ` set d' \<subseteq> fst ` set d \<union> set (p # ps)" by auto
    ultimately show ?thesis by blast
  qed
qed

lemma boost_loop_deltas_keys:
  "fst ` set (snd (boost_loop qp cfg ps fs d)) \<subseteq> fst ` set d \<union> fst ` set fs"
proof (induction ps arbitrary: fs d)
  case Nil
  then show ?case by simp
next
  case (Cons p ps)
  show ?case
  proof (cases "map_of fs p")
    case None
    then show ?thesis using Cons.IH[of fs d] by simp
  next
    case (Some f)
    then have reg: "p \<in> fst ` set fs"
      by (metis map_of_eq_None_iff option.distinct(1))
    have step: "boost_loop qp cfg (p # ps) fs d =
        boost_loop qp cfg ps (AList.update p (boosted qp cfg f) fs)
          (AList.update p (min 1 (raw_pressure f + activation_boost cfg) - raw_pressure f) d)"
      using Some by (simp add: Let_def boosted_def)
    show ?thesis unfolding step
      using Cons.IH[of "AList.update p (boosted qp cfg f) fs"
          "AList.update p (min 1 (raw_pressure f + activation_boost cfg) - raw_pressure f) d"] reg
      by (auto simp: dom_update)
  qed
qed

lemma registered_update:
  "map_of fs p = Some f \<Longrightarrow> registered (AList.update p v fs) = registered fs"
  by (auto simp: registered_def update_conv' fun_eq_iff)

lemma boost_loop_skips_unknown:
  "boost_loop qp cfg ps fs d = boost_loop qp cfg (filter (registered fs) ps) fs d"
proof (induction ps arbitrary: fs d)
  case Nil
  then show ?case by simp
next
  case (Cons p ps)
  show ?case
  proof (cases "map_of fs p")
    case None
    then show ?thesis using Cons.IH[of fs d] by (simp add: registered_def)
  next
    case (Some f)
    then show ?thesis
      using Cons.IH registered_update[OF Some]
      by (simp add: registered_def[of fs p] Let_def)
  qed
qed

lemma apply_activation_keys:
  assumes "apply_activation qp fs acts cfg = Inr (fs', d')"
  shows "map fst fs' = map fst fs \<and> fst ` set d' \<subseteq> fst ` set fs"
proof (cases "acts = []")
  case True
  with assms show ?thesis by (simp add: apply_activation_def)
next
  case False
  let ?na = "filter (\<lambda>p. p \<notin> set acts) (map fst fs)"
  let ?dr = "real (length acts) * activation_boost cfg / real (length ?na)"
  have "\<exists>fs1 d1. boost_loop qp cfg acts fs1 d1 = (fs', d') \<and>
           map fst fs1 = map fst fs \<and> fst ` set d1 \<subseteq> fst ` set fs"
  proof (cases "enable_conservation cfg \<and> ?na \<noteq> []")
    case True
    obtain fs1 d1 where run: "drain_loop qp ?dr ?na fs [] = Inr (fs1, d1)"
      using drain_loop_total[where ps="?na" and fs=fs and qp=qp and dr="?dr" and d="[]"]
        non_activated_known[of acts fs] by blast
    have a: "apply_activation qp fs acts cfg = Inr (boost_loop qp cfg acts fs1 d1)"
      using True False run by (simp add: apply_activation_def Let_def)
    from drain_loop_keys[OF run] have k: "map fst fs1 = map fst fs"
      and b: "fst ` set d1 \<subseteq> fst ` set ([] :: deltas) \<union> set ?na" by blast+
    have "set ?na \<subseteq> fst ` set fs" by (rule non_activated_known)
    with b have "fst ` set d1 \<subseteq> fst ` set fs" by auto
    moreover from a assms have "boost_loop qp cfg acts fs1 d1 = (fs', d')" by simp
    ultimately show ?thesis using k by blast
  next
    case F: False
    then have a: "apply_activation qp fs acts cfg = Inr (boost_loop qp cfg acts fs [])"
      using False by (auto simp: apply_activation_def Let_def)
    with assms have "boost_loop qp cfg acts fs [] = (fs', d')" by simp
    then show ?thesis by (intro exI[of _ fs] exI[of _ "[]"]) simp
  qed
  then obtain fs1 d1 where res: "boost_loop qp cfg acts fs1 d1 = (fs', d')"
    and k1: "map fst fs1 = map fst fs" and s1: "fst ` set d1 \<subseteq> fst ` set fs"
    by blast
  from res have fs': "fs' = fst (boost_loop qp cfg acts fs1 d1)"
    and d': "d' = snd (boost_loop qp cfg acts fs1 d1)" by simp_all
  have k: "map fst fs' = map fst fs"
    unfolding fs' boost_loop_keys by (rule k1)
  have "set (map fst fs1) = set (map fst fs)"
    by (simp only: k1)
  then have e: "fst ` set fs1 = fst ` set fs"
    by (simp only: set_map)
  have x: "fst ` set d' \<subseteq> fst ` set d1 \<union> fst ` set fs"
    unfolding d' e[symmetric] by (rule boost_loop_deltas_keys)
  have u: "fst ` set d1 \<union> fst ` set fs \<subseteq> fst ` set fs"
    using s1 by simp
  have "fst ` set d' \<subseteq> fst ` set fs"
    by (rule order_trans[OF x u])
  with k show ?thesis by (rule conjI)
qed

lemma apply_activation_skips_unknown:
  "\<not> enable_conservation cfg \<Longrightarrow>
   apply_activation qp fs acts cfg = apply_activation qp fs (filter (registered fs) acts) cfg"
  using boost_loop_skips_unknown[of qp cfg acts fs "[]"]
  by (simp add: apply_activation_def Let_def)

lemma apply_deltas_loop_keys:
  "map fst (apply_deltas_loop qp ds fs) = map fst fs"
proof (induction ds arbitrary: fs)
  case Nil
  then show ?case by simp
next
  case (Cons a ds)
  obtain p dl where a: "a = (p, dl)" by (cases a)
  show ?case
    by (cases "map_of fs p") (simp_all add: a Cons.IH Let_def update_keys_known)
qed

lemma add_delta_keys: "fst ` set (add_delta k x d) = insert k (fst ` set d)"
  by (simp add: add_delta_def dom_update)

lemma flow_loop_keys:
  "s \<in> fst ` set fs \<Longrightarrow>
   fst ` set (flow_loop fs ew cfg s bf ts d) \<subseteq> fst ` set d \<union> fst ` set fs"
proof (induction ts arbitrary: d)
  case Nil
  then show ?case by simp
next
  case (Cons t ts)
  show ?case
  proof (cases "map_of fs t = None")
    case True
    then show ?thesis using Cons.IH[OF Cons.prems, of d] by simp
  next
    case False
    then have t: "t \<in> fst ` set fs" by (simp add: map_of_eq_None_iff)
    let ?flow = "bf * edge_weight ew s t"
    let ?d2 = "if enable_conservation cfg
               then add_delta s (- ?flow) (add_delta t ?flow d) else add_delta t ?flow d"
    have eq: "flow_loop fs ew cfg s bf (t # ts) d = flow_loop fs ew cfg s bf ts ?d2"
      using False by (auto simp: Let_def)
    have "fst ` set ?d2 \<subseteq> fst ` set d \<union> fst ` set fs"
      using t Cons.prems by (simp add: add_delta_keys)
    then show ?thesis unfolding eq
      using Cons.IH[OF Cons.prems, of ?d2] by blast
  qed
qed

lemma source_loop_keys:
  "set items \<subseteq> set fs \<Longrightarrow>
   fst ` set (source_loop fs adj ew cfg items d) \<subseteq> fst ` set d \<union> fst ` set fs"
proof (induction items arbitrary: d)
  case Nil
  then show ?case by simp
next
  case (Cons a items)
  obtain s f where a: "a = (s, f)" by (cases a)
  from Cons.prems a have s: "s \<in> fst ` set fs" and sub: "set items \<subseteq> set fs"
    by (auto intro: rev_image_eqI)
  note IH = Cons.IH[OF sub]
  let ?out = "case map_of adj s of None \<Rightarrow> [] | Some ts \<Rightarrow> ts"
  let ?bf = "if length ?out > 1 then edge_flow_rate cfg / real (length ?out)
             else edge_flow_rate cfg"
  show ?case
  proof (cases "(hot_propagates cfg \<and> raw_pressure f < min_pressure_to_propagate cfg) \<or> ?out = []")
    case True
    then have "source_loop fs adj ew cfg (a # items) d = source_loop fs adj ew cfg items d"
      by (auto simp: a Let_def)
    then show ?thesis using IH[of d] by simp
  next
    case False
    then have eq: "source_loop fs adj ew cfg (a # items) d =
        source_loop fs adj ew cfg items (flow_loop fs ew cfg s ?bf ?out d)"
      by (auto simp: a Let_def)
    show ?thesis unfolding eq
      using IH[of "flow_loop fs ew cfg s ?bf ?out d"] flow_loop_keys[OF s, of ew cfg ?bf ?out d]
      by blast
  qed
qed

lemma flow_loop_skips_unknown:
  "flow_loop fs ew cfg s bf ts d = flow_loop fs ew cfg s bf (filter (registered fs) ts) d"
  by (induction ts arbitrary: d) (simp_all add: registered_def Let_def)

text \<open>
  What the two operations do with ids that are not registered:
  \<open>apply_activation\<close> always returns, keeps the keys of the file dictionary
  and records no delta for an unknown id; with conservation disabled its
  result is the result on the activation list without the unknown ids.
  \<open>propagate_pressure\<close> keeps the keys as well and records no delta for an
  unregistered target; its loop over the targets of a source gives, at the
  same per-edge base flow, the deltas of the loop over the registered targets
  alone.
\<close>

lemma unknown_ids_are_skipped:
  "(\<exists>files' deltas.
      apply_activation qp files activated_paths config = Inr (files', deltas) \<and>
      map fst files' = map fst files \<and>
      (\<forall>p. \<not> registered files p \<longrightarrow> map_of deltas p = None)) \<and>
   (\<not> enable_conservation config \<longrightarrow>
      apply_activation qp files activated_paths config =
      apply_activation qp files (filter (registered files) activated_paths) config) \<and>
   map fst (fst (propagate_pressure qp files adjacency edge_weights config)) = map fst files \<and>
   (\<forall>p. \<not> registered files p \<longrightarrow>
      map_of (snd (propagate_pressure qp files adjacency edge_weights config)) p = None) \<and>
   flow_loop files edge_weights config path base_flow outgoing deltas0 =
     flow_loop files edge_weights config path base_flow (filter (registered files) outgoing) deltas0"
proof -
  obtain fs' d' where a: "apply_activation qp files activated_paths config = Inr (fs', d')"
    using apply_activation_total by blast
  from apply_activation_keys[OF a] have k: "map fst fs' = map fst files"
    and s: "fst ` set d' \<subseteq> fst ` set files" by blast+
  have 1: "\<exists>files' deltas.
      apply_activation qp files activated_paths config = Inr (files', deltas) \<and>
      map fst files' = map fst files \<and>
      (\<forall>p. \<not> registered files p \<longrightarrow> map_of deltas p = None)"
    using a k unregistered_no_entry[OF s] by blast
  have 2: "\<not> enable_conservation config \<longrightarrow>
      apply_activation qp files activated_paths config =
      apply_activation qp files (filter (registered files) activated_paths) config"
    by (rule impI) (rule apply_activation_skips_unknown)
  have 3: "map fst (fst (propagate_pressure qp files adjacency edge_weights config)) = map fst files"
    by (simp add: propagate_pressure_def Let_def apply_deltas_loop_keys)
  have "fst ` set (source_loop files adjacency edge_weights config files [])
          \<subseteq> fst ` set ([] :: deltas) \<union> fst ` set files"
    by (rule source_loop_keys) simp
  then have s2: "fst ` set (snd (propagate_pressure qp files adjacency edge_weights config))
          \<subseteq> fst ` set files"
    by (simp add: propagate_pressure_def Let_def)
  have 4: "\<forall>p. \<not> registered files p \<longrightarrow>
      map_of (snd (propagate_pressure qp files adjacency edge_weights config)) p = None"
    using unregistered_no_entry[OF s2] by blast
  have 5: "flow_loop files edge_weights config path base_flow outgoing deltas0 =
     flow_loop files edge_weights config path base_flow (filter (registered files) outgoing) deltas0"
    by (rule flow_loop_skips_unknown)
  from 1 2 3 4 5 show ?thesis by (intro conjI)
qed

text \<open>
  C7 (unknown ids). With conservation enabled the state after
  \<open>apply_activation\<close> is not the state produced with the unknown ids
  removed: \<open>total_boost = len(activated_paths) * activation_boost\<close> counts
  the ids that the boost loop skips. Two files at \<open>0.5\<close>, default
  configuration: activating \<open>a.md\<close> together with the unknown \<open>ghost.md\<close>
  drains \<open>0.8\<close> from \<open>b.md\<close>, which ends at \<open>0.0\<close>, while activating
  \<open>a.md\<close> alone drains \<open>0.4\<close> and leaves it at \<open>0.1\<close>; activating
  \<open>ghost.md\<close> alone drains \<open>0.2\<close> from each file and boosts none, while
  the empty list changes nothing.
\<close>

theorem unknown_activation_id_drains_pressure:
  "\<not> registered (two_warm_files quantize_sample) ''ghost.md'' \<and>
   apply_activation quantize_sample (two_warm_files quantize_sample) [''a.md'', ''ghost.md'']
       PressureConfig_default
     = Inr ([(''a.md'', file_at quantize_sample (9 / 10)), (''b.md'', file_at quantize_sample 0)],
            [(''b.md'', - (1 / 2)), (''a.md'', 2 / 5)]) \<and>
   apply_activation quantize_sample (two_warm_files quantize_sample) [''a.md'']
       PressureConfig_default
     = Inr ([(''a.md'', file_at quantize_sample (9 / 10)), (''b.md'', file_at quantize_sample (1 / 10))],
            [(''b.md'', - (2 / 5)), (''a.md'', 2 / 5)]) \<and>
   apply_activation quantize_sample (two_warm_files quantize_sample) [''ghost.md'']
       PressureConfig_default
     = Inr ([(''a.md'', file_at quantize_sample (3 / 10)), (''b.md'', file_at quantize_sample (3 / 10))],
            [(''a.md'', - (1 / 5)), (''b.md'', - (1 / 5))]) \<and>
   apply_activation quantize_sample (two_warm_files quantize_sample) []
       PressureConfig_default
     = Inr (two_warm_files quantize_sample, [])"
  by (simp add: registered_def two_warm_files_def apply_activation_def
      file_at_def PressureConfig_default_def Let_def)

subsection \<open>Propagation\<close>

lemma net_Nil [simp]: "net cons k [] = 0"
  by (simp add: net_def)

lemma net_append [simp]: "net cons k (xs @ ys) = net cons k xs + net cons k ys"
  by (simp add: net_def)

lemma delta_value_add_delta:
  "delta_value (add_delta k x d) k' = delta_value d k' + (if k' = k then x else 0)"
  by (simp add: delta_value_def add_delta_def update_conv' split: option.splits)

lemma flow_loop_value:
  "delta_value (flow_loop fs ew cfg s bf ts d) k =
     delta_value d k +
     net (enable_conservation cfg) k
       (map (\<lambda>t. (s, t, bf * edge_weight ew s t)) (filter (registered fs) ts))"
proof (induction ts arbitrary: d)
  case Nil
  then show ?case by simp
next
  case (Cons t ts)
  show ?case
  proof (cases "map_of fs t = None")
    case True
    then show ?thesis using Cons.IH[of d] by (simp add: registered_def)
  next
    case False
    let ?flow = "bf * edge_weight ew s t"
    let ?d2 = "if enable_conservation cfg
               then add_delta s (- ?flow) (add_delta t ?flow d) else add_delta t ?flow d"
    have eq: "flow_loop fs ew cfg s bf (t # ts) d = flow_loop fs ew cfg s bf ts ?d2"
      using False by (auto simp: Let_def)
    have v: "delta_value ?d2 k = delta_value d k +
        ((if t = k then ?flow else 0) - (if enable_conservation cfg \<and> s = k then ?flow else 0))"
      by (simp add: delta_value_add_delta)
    have r: "registered fs t" using False by (simp add: registered_def)
    show ?thesis unfolding eq Cons.IH[of ?d2] v
      using r by (simp add: net_def)
  qed
qed

lemma source_loop_value:
  "delta_value (source_loop fs adj ew cfg items d) k =
     delta_value d k + net (enable_conservation cfg) k (sent_flows fs adj ew cfg items)"
proof (induction items arbitrary: d)
  case Nil
  then show ?case by (simp add: sent_flows_def)
next
  case (Cons a items)
  obtain s f where a: "a = (s, f)" by (cases a)
  let ?out = "case map_of adj s of None \<Rightarrow> [] | Some ts \<Rightarrow> ts"
  let ?bf = "if length ?out > 1 then edge_flow_rate cfg / real (length ?out)
             else edge_flow_rate cfg"
  have o: "out_edges adj s = ?out" by (simp add: out_edges_def)
  have sf: "sent_flows fs adj ew cfg (a # items) =
      (if sends cfg f
       then map (\<lambda>t. (s, t, edge_flow cfg adj ew s t)) (filter (registered fs) ?out)
       else []) @ sent_flows fs adj ew cfg items"
    by (simp add: sent_flows_def a o)
  show ?case
  proof (cases "sends cfg f \<and> ?out \<noteq> []")
    case False
    then have eq: "source_loop fs adj ew cfg (a # items) d = source_loop fs adj ew cfg items d"
      by (auto simp: a Let_def sends_def)
    from False have "(if sends cfg f
       then map (\<lambda>t. (s, t, edge_flow cfg adj ew s t)) (filter (registered fs) ?out)
       else []) = []" by auto
    then show ?thesis unfolding eq sf using Cons.IH[of d] by simp
  next
    case True
    then have eq: "source_loop fs adj ew cfg (a # items) d =
        source_loop fs adj ew cfg items (flow_loop fs ew cfg s ?bf ?out d)"
      by (auto simp: a Let_def sends_def)
    have bf: "?bf = edge_flow_rate cfg / real (length ?out)"
    proof (cases "length ?out > 1")
      case True
      then show ?thesis by simp
    next
      case F: False
      with True have "length ?out = 1" by (cases ?out) auto
      then show ?thesis by simp
    qed
    have fl: "(\<lambda>t. (s, t, ?bf * edge_weight ew s t)) = (\<lambda>t. (s, t, edge_flow cfg adj ew s t))"
      unfolding bf by (simp add: edge_flow_def o)
    show ?thesis unfolding eq sf Cons.IH flow_loop_value fl
      using True by simp
  qed
qed

lemma net_split:
  "net cons k flows =
     sum_list (map (\<lambda>(s, t, x). if t = k then x else 0) flows) -
     (if cons then sum_list (map (\<lambda>(s, t, x). if s = k then x else 0) flows) else 0)"
  by (induction flows) (auto simp: net_def)

lemma propagate_deltas_value:
  "delta_value (snd (propagate_pressure qp files adj ew cfg)) k =
     inflow files adj ew cfg k - (if enable_conservation cfg then outflow files adj ew cfg k else 0)"
proof -
  have z: "delta_value [] k = 0" by (simp add: delta_value_def)
  show ?thesis
    by (simp add: propagate_pressure_def Let_def source_loop_value z net_split inflow_def
        outflow_def)
qed


lemma add_delta_distinct:
  "distinct (map fst d) \<Longrightarrow> distinct (map fst (add_delta k x d))"
  by (simp add: add_delta_def distinct_update)

lemma flow_loop_distinct:
  "distinct (map fst d) \<Longrightarrow> distinct (map fst (flow_loop fs ew cfg s bf ts d))"
  by (induction ts arbitrary: d) (simp_all add: Let_def add_delta_distinct)

lemma source_loop_distinct:
  "distinct (map fst d) \<Longrightarrow> distinct (map fst (source_loop fs adj ew cfg items d))"
proof (induction items arbitrary: d)
  case Nil
  then show ?case by simp
next
  case (Cons a items)
  obtain s f where a: "a = (s, f)" by (cases a)
  show ?case
    using Cons.prems by (auto simp: a Let_def intro!: Cons.IH flow_loop_distinct)
qed

lemma apply_deltas_loop_lookup:
  "distinct (map fst ds) \<Longrightarrow>
   map_of (apply_deltas_loop qp ds fs) p =
     (case map_of ds p of
        None \<Rightarrow> map_of fs p
      | Some delta \<Rightarrow> map_option (shifted qp delta) (map_of fs p))"
proof (induction ds arbitrary: fs)
  case Nil
  then show ?case by simp
next
  case (Cons a ds)
  obtain k dl where a: "a = (k, dl)" by (cases a)
  from Cons.prems a have dist: "distinct (map fst ds)" and notin: "k \<notin> fst ` set ds" by auto
  from notin have none: "map_of ds k = None" by (simp add: map_of_eq_None_iff)
  note IH = Cons.IH[OF dist]
  show ?case
  proof (cases "map_of fs k")
    case None
    then have eq: "apply_deltas_loop qp (a # ds) fs = apply_deltas_loop qp ds fs"
      by (simp add: a)
    show ?thesis unfolding eq IH using None none by (auto simp: a split: option.splits)
  next
    case (Some f)
    then have eq: "apply_deltas_loop qp (a # ds) fs =
        apply_deltas_loop qp ds (AList.update k (shifted qp dl f) fs)"
      by (simp add: a Let_def shifted_def)
    show ?thesis unfolding eq IH using Some none
      by (auto simp: a update_conv' split: option.splits)
  qed
qed

lemma propagate_files_lookup:
  "map_of (fst (propagate_pressure qp files adj ew cfg)) p =
     (case map_of (snd (propagate_pressure qp files adj ew cfg)) p of
        None \<Rightarrow> map_of files p
      | Some delta \<Rightarrow> map_option (shifted qp delta) (map_of files p))"
proof -
  have "distinct (map fst (source_loop files adj ew cfg files []))"
    by (rule source_loop_distinct) simp
  from apply_deltas_loop_lookup[OF this] show ?thesis
    by (simp add: propagate_pressure_def Let_def)
qed

lemma touched_Nil [simp]: "touched cons [] = {}"
  by (simp add: touched_def)

lemma touched_append [simp]: "touched cons (xs @ ys) = touched cons xs \<union> touched cons ys"
  by (simp add: touched_def)

lemma touched_Cons:
  "touched cons ((s, t, x) # flows) = (if cons then {s, t} else {t}) \<union> touched cons flows"
  by (simp add: touched_def)

lemma flow_loop_touched:
  "fst ` set (flow_loop fs ew cfg s bf ts d) =
     fst ` set d \<union>
     touched (enable_conservation cfg)
       (map (\<lambda>t. (s, t, bf * edge_weight ew s t)) (filter (registered fs) ts))"
proof (induction ts arbitrary: d)
  case Nil
  then show ?case by simp
next
  case (Cons t ts)
  show ?case
  proof (cases "map_of fs t = None")
    case True
    then show ?thesis using Cons.IH[of d] by (simp add: registered_def)
  next
    case False
    let ?flow = "bf * edge_weight ew s t"
    let ?d2 = "if enable_conservation cfg
               then add_delta s (- ?flow) (add_delta t ?flow d) else add_delta t ?flow d"
    have eq: "flow_loop fs ew cfg s bf (t # ts) d = flow_loop fs ew cfg s bf ts ?d2"
      using False by (auto simp: Let_def)
    have v: "fst ` set ?d2 = fst ` set d \<union> (if enable_conservation cfg then {s, t} else {t})"
      by (auto simp: add_delta_keys)
    have r: "registered fs t" using False by (simp add: registered_def)
    show ?thesis unfolding eq Cons.IH[of ?d2] v
      using r by (simp add: touched_Cons Un_assoc)
  qed
qed

lemma source_loop_touched:
  "fst ` set (source_loop fs adj ew cfg items d) =
     fst ` set d \<union> touched (enable_conservation cfg) (sent_flows fs adj ew cfg items)"
proof (induction items arbitrary: d)
  case Nil
  then show ?case by (simp add: sent_flows_def)
next
  case (Cons a items)
  obtain s f where a: "a = (s, f)" by (cases a)
  let ?out = "case map_of adj s of None \<Rightarrow> [] | Some ts \<Rightarrow> ts"
  let ?bf = "if length ?out > 1 then edge_flow_rate cfg / real (length ?out)
             else edge_flow_rate cfg"
  have o: "out_edges adj s = ?out" by (simp add: out_edges_def)
  have sf: "sent_flows fs adj ew cfg (a # items) =
      (if sends cfg f
       then map (\<lambda>t. (s, t, edge_flow cfg adj ew s t)) (filter (registered fs) ?out)
       else []) @ sent_flows fs adj ew cfg items"
    by (simp add: sent_flows_def a o)
  show ?case
  proof (cases "sends cfg f \<and> ?out \<noteq> []")
    case False
    then have eq: "source_loop fs adj ew cfg (a # items) d = source_loop fs adj ew cfg items d"
      by (auto simp: a Let_def sends_def)
    from False have "(if sends cfg f
       then map (\<lambda>t. (s, t, edge_flow cfg adj ew s t)) (filter (registered fs) ?out)
       else []) = []" by auto
    then show ?thesis unfolding eq sf using Cons.IH[of d] by simp
  next
    case True
    then have eq: "source_loop fs adj ew cfg (a # items) d =
        source_loop fs adj ew cfg items (flow_loop fs ew cfg s ?bf ?out d)"
      by (auto simp: a Let_def sends_def)
    have bf: "?bf = edge_flow_rate cfg / real (length ?out)"
    proof (cases "length ?out > 1")
      case True
      then show ?thesis by simp
    next
      case F: False
      with True have "length ?out = 1" by (cases ?out) auto
      then show ?thesis by simp
    qed
    have fl: "(\<lambda>t. (s, t, ?bf * edge_weight ew s t)) = (\<lambda>t. (s, t, edge_flow cfg adj ew s t))"
      unfolding bf by (simp add: edge_flow_def o)
    show ?thesis unfolding eq sf Cons.IH flow_loop_touched fl
      using True by (simp add: Un_assoc)
  qed
qed

lemma propagate_deltas_keys:
  "map_of (snd (propagate_pressure qp files adj ew cfg)) k \<noteq> None \<longleftrightarrow>
     k \<in> touched (enable_conservation cfg) (sent_flows files adj ew cfg files)"
proof -
  have "map_of (snd (propagate_pressure qp files adj ew cfg)) k \<noteq> None \<longleftrightarrow>
      k \<in> fst ` set (source_loop files adj ew cfg files [])"
    by (simp add: propagate_pressure_def Let_def map_of_eq_None_iff)
  then show ?thesis unfolding source_loop_touched by simp
qed

text \<open>
  C5 (propagation semantics), as the code has it. The returned deltas are, for
  every key, what the key receives minus, in conserving mode, what it sends,
  where the flows are those of \<open>sent_flows\<close>: a file sends when the hot gate
  \<open>hot_propagates\<close> is off or its pressure before the call is at least
  \<open>min_pressure_to_propagate\<close>; each flow is \<open>edge_flow_rate\<close> divided by
  the number of outgoing edges of the source, times the edge weight (\<open>1.0\<close>
  when absent), and goes to a registered target. A key has an entry in the
  deltas exactly when a flow touches it. The state after the call is the state
  before it with every delta added once and clamped to \<open>[0, 1]\<close>; the flows
  never read a pressure written during the call.
\<close>

theorem propagate_pressure_semantics:
  "(\<forall>k. delta_value (snd (propagate_pressure qp files adjacency edge_weights config)) k =
          inflow files adjacency edge_weights config k -
          (if enable_conservation config
           then outflow files adjacency edge_weights config k else 0)) \<and>
   (\<forall>k. map_of (snd (propagate_pressure qp files adjacency edge_weights config)) k \<noteq> None
          \<longleftrightarrow> k \<in> touched (enable_conservation config)
                  (sent_flows files adjacency edge_weights config files)) \<and>
   (\<forall>path. map_of (fst (propagate_pressure qp files adjacency edge_weights config)) path =
      (case map_of (snd (propagate_pressure qp files adjacency edge_weights config)) path of
         None \<Rightarrow> map_of files path
       | Some delta \<Rightarrow> map_option (shifted qp delta) (map_of files path)))"
  using propagate_deltas_value propagate_deltas_keys propagate_files_lookup by blast


text \<open>
  The claim as stated fails when the hot gate is switched off: a file at
  \<open>0.5\<close>, below the threshold \<open>0.8\<close>, sends \<open>0.15\<close> to its neighbour.
\<close>

theorem cold_file_sends_without_hot_gate:
  "raw_pressure (file_at quantize_sample (1 / 2))
     < min_pressure_to_propagate PressureConfig_all_propagate \<and>
   propagate_pressure quantize_sample (two_warm_files quantize_sample)
       [(''a.md'', [''b.md''])] None PressureConfig_all_propagate
     = ([(''a.md'', file_at quantize_sample (7 / 20)), (''b.md'', file_at quantize_sample (13 / 20))],
        [(''b.md'', 3 / 20), (''a.md'', - (3 / 20))])"
  by (simp add: two_warm_files_def propagate_pressure_def add_delta_def edge_weight_def
      file_at_def PressureConfig_all_propagate_def PressureConfig_default_def Let_def)

theorem propagate_pressure_semantics_witness:
  "enable_conservation PressureConfig_default \<and>
   sends PressureConfig_default (file_at quantize_sample (9 / 10)) \<and>
   \<not> sends PressureConfig_default (file_at quantize_sample (1 / 2)) \<and>
   inflow (hot_and_warm_files quantize_sample) [(''a.md'', [''b.md'']), (''b.md'', [''a.md''])]
     None PressureConfig_default ''b.md'' = 3 / 20 \<and>
   outflow (hot_and_warm_files quantize_sample) [(''a.md'', [''b.md'']), (''b.md'', [''a.md''])]
     None PressureConfig_default ''b.md'' = 0 \<and>
   delta_value (snd (propagate_pressure quantize_sample (hot_and_warm_files quantize_sample)
     [(''a.md'', [''b.md'']), (''b.md'', [''a.md''])] None PressureConfig_default)) ''b.md'' = 3 / 20"
proof -
  let ?fs = "hot_and_warm_files quantize_sample"
  let ?adj = "[(''a.md'', [''b.md'']), (''b.md'', [''a.md''])]"
  have c: "enable_conservation PressureConfig_default"
    by (simp add: PressureConfig_default_def)
  have s1: "sends PressureConfig_default (file_at quantize_sample (9 / 10))"
    by (simp add: sends_def PressureConfig_default_def file_at_def)
  have s2: "\<not> sends PressureConfig_default (file_at quantize_sample (1 / 2))"
    by (simp add: sends_def PressureConfig_default_def file_at_def)
  have fl: "sent_flows ?fs ?adj None PressureConfig_default ?fs = [(''a.md'', ''b.md'', 3 / 20)]"
    using s1 s2
    by (simp add: sent_flows_def hot_and_warm_files_def out_edges_def registered_def
        edge_flow_def edge_weight_def)
       (simp add: PressureConfig_default_def)
  have i: "inflow ?fs ?adj None PressureConfig_default ''b.md'' = 3 / 20"
    by (simp add: inflow_def fl)
  have o: "outflow ?fs ?adj None PressureConfig_default ''b.md'' = 0"
    by (simp add: outflow_def fl)
  from propagate_pressure_semantics [of quantize_sample ?fs ?adj None PressureConfig_default]
  have "delta_value (snd (propagate_pressure quantize_sample ?fs ?adj None
            PressureConfig_default)) ''b.md'' =
        inflow ?fs ?adj None PressureConfig_default ''b.md'' -
        (if enable_conservation PressureConfig_default
         then outflow ?fs ?adj None PressureConfig_default ''b.md'' else 0)"
    by blast
  then have d: "delta_value (snd (propagate_pressure quantize_sample ?fs ?adj None
            PressureConfig_default)) ''b.md'' = 3 / 20"
    by (simp add: i o c)
  from c s1 s2 i o d show ?thesis by (intro conjI)
qed

subsection \<open>Unregistered targets of a source\<close>

lemma sum_from_one_source:
  "sum_list (map ((\<lambda>(s', t, x). if s' = p then x else 0) \<circ> (\<lambda>t. (s, t, g t))) ts) =
     (if s = p then sum_list (map g ts) else (0 :: real))"
  by (induction ts) auto

lemma outflow_unregistered_source:
  "p \<notin> fst ` set items \<Longrightarrow>
   sum_list (map (\<lambda>(s, t, x). if s = p then x else 0) (sent_flows F adj ew cfg items)) = (0 :: real)"
proof (induction items)
  case Nil
  then show ?case by (simp add: sent_flows_def)
next
  case (Cons a items)
  obtain s f where a: "a = (s, f)" by (cases a)
  from Cons.prems a have ne: "s \<noteq> p" and rest: "p \<notin> fst ` set items" by auto
  have sf: "sent_flows F adj ew cfg (a # items) =
      (if sends cfg f
       then map (\<lambda>t. (s, t, edge_flow cfg adj ew s t)) (filter (registered F) (out_edges adj s))
       else []) @ sent_flows F adj ew cfg items"
    by (simp add: sent_flows_def a)
  show ?case unfolding sf using Cons.IH[OF rest] ne
    by (simp add: sum_from_one_source)
qed

lemma outflow_of_source:
  "distinct (map fst items) \<Longrightarrow> map_of items p = Some f \<Longrightarrow>
   sum_list (map (\<lambda>(s, t, x). if s = p then x else 0) (sent_flows F adj ew cfg items)) =
     (if sends cfg f
      then sum_list (map (\<lambda>t. edge_flow cfg adj ew p t)
             (filter (registered F) (out_edges adj p)))
      else 0)"
proof (induction items)
  case Nil
  then show ?case by simp
next
  case (Cons a items)
  obtain s g where a: "a = (s, g)" by (cases a)
  from Cons.prems a have dist: "distinct (map fst items)" and notin: "s \<notin> fst ` set items"
    by auto
  have sf: "sent_flows F adj ew cfg (a # items) =
      (if sends cfg g
       then map (\<lambda>t. (s, t, edge_flow cfg adj ew s t)) (filter (registered F) (out_edges adj s))
       else []) @ sent_flows F adj ew cfg items"
    by (simp add: sent_flows_def a)
  show ?case
  proof (cases "s = p")
    case True
    with Cons.prems a have fg: "g = f" by simp
    from True notin have "p \<notin> fst ` set items" by simp
    from outflow_unregistered_source[OF this, of F adj ew cfg]
    show ?thesis unfolding sf using True fg by (simp add: sum_from_one_source)
  next
    case False
    with Cons.prems a have m: "map_of items p = Some f" by simp
    show ?thesis unfolding sf using Cons.IH[OF dist m] False
      by (simp add: sum_from_one_source)
  qed
qed

lemma scaled_sum:
  "sum_list (map (\<lambda>t. c / n * w t) ts) = c / n * sum_list (map w ts)" for c n :: real
  by (induction ts) (simp_all add: algebra_simps)

lemma outflow_closed:
  assumes "distinct (map fst files)" and "map_of files path = Some f" and "sends config f"
  shows "outflow files adj ew config path =
     edge_flow_rate config / real (length (out_edges adj path)) *
       sum_list (map (edge_weight ew path) (filter (registered files) (out_edges adj path)))"
proof -
  have "outflow files adj ew config path =
      sum_list (map (\<lambda>t. edge_flow config adj ew path t)
             (filter (registered files) (out_edges adj path)))"
    unfolding outflow_def using outflow_of_source[OF assms(1,2), of files adj ew config] assms(3)
    by simp
  also have "\<dots> = edge_flow_rate config / real (length (out_edges adj path)) *
       sum_list (map (edge_weight ew path) (filter (registered files) (out_edges adj path)))"
    unfolding edge_flow_def by (rule scaled_sum)
  finally show ?thesis .
qed

lemma unit_weights_sum:
  "sum_list (map (edge_weight None path) ts) = real (length ts)"
  by (induction ts) (auto simp: edge_weight_def)

text \<open>
  C10 (unregistered targets in conserving propagation). Let \<open>path\<close> be a
  registered file that sends, in conserving mode, in a file dictionary with
  distinct keys. An unregistered target has no entry in the returned deltas
  and none in the files: it receives nothing. The delta of the source is what
  it receives minus its outflow, and the outflow is \<open>edge_flow_rate\<close>
  divided by the number of \<^emph>\<open>all\<close> outgoing edges, times the sum of the weights
  of the \<^emph>\<open>registered\<close> targets only: the source loses nothing for a skipped
  edge, but the edge counts in the divisor. With unit weights the outflow is
  \<open>edge_flow_rate * registered / all\<close>, strictly below \<open>edge_flow_rate\<close>
  as soon as one target is unregistered.
\<close>

theorem unregistered_targets_count_in_divisor:
  assumes "enable_conservation config" and "distinct (map fst files)"
    and "map_of files path = Some f" and "sends config f"
  shows
   "(\<forall>t. \<not> registered files t \<longrightarrow>
       map_of (snd (propagate_pressure qp files adjacency edge_weights config)) t = None \<and>
       map_of (fst (propagate_pressure qp files adjacency edge_weights config)) t = None) \<and>
    delta_value (snd (propagate_pressure qp files adjacency edge_weights config)) path =
      inflow files adjacency edge_weights config path -
      outflow files adjacency edge_weights config path \<and>
    outflow files adjacency edge_weights config path =
      edge_flow_rate config / real (length (out_edges adjacency path)) *
        sum_list (map (edge_weight edge_weights path)
          (filter (registered files) (out_edges adjacency path))) \<and>
    (edge_weights = None \<longrightarrow>
       outflow files adjacency edge_weights config path =
         edge_flow_rate config *
           real (length (filter (registered files) (out_edges adjacency path))) /
           real (length (out_edges adjacency path))) \<and>
    (edge_weights = None \<and> 0 < edge_flow_rate config \<and>
     (\<exists>t \<in> set (out_edges adjacency path). \<not> registered files t) \<longrightarrow>
       outflow files adjacency edge_weights config path < edge_flow_rate config)"
proof -
  let ?P = "propagate_pressure qp files adjacency edge_weights config"
  let ?out = "out_edges adjacency path"
  let ?reg = "filter (registered files) ?out"
  have "fst ` set (source_loop files adjacency edge_weights config files [])
          \<subseteq> fst ` set ([] :: deltas) \<union> fst ` set files"
    by (rule source_loop_keys) simp
  then have s2: "fst ` set (snd ?P) \<subseteq> fst ` set files"
    by (simp add: propagate_pressure_def Let_def)
  have k: "map fst (fst ?P) = map fst files"
    by (simp add: propagate_pressure_def Let_def apply_deltas_loop_keys)
  then have "set (map fst (fst ?P)) = set (map fst files)" by (simp only:)
  then have s1: "fst ` set (fst ?P) \<subseteq> fst ` set files" by (simp only: set_map order_refl)
  have 1: "\<forall>t. \<not> registered files t \<longrightarrow>
       map_of (snd ?P) t = None \<and> map_of (fst ?P) t = None"
    using unregistered_no_entry[OF s2] unregistered_no_entry[OF s1] by blast
  have 2: "delta_value (snd ?P) path =
      inflow files adjacency edge_weights config path -
      outflow files adjacency edge_weights config path"
    using assms(1) by (simp add: propagate_deltas_value)
  have 3: "outflow files adjacency edge_weights config path =
      edge_flow_rate config / real (length ?out) * sum_list (map (edge_weight edge_weights path) ?reg)"
    using assms(2,3,4) by (rule outflow_closed)
  have 4: "outflow files adjacency edge_weights config path =
         edge_flow_rate config * real (length ?reg) / real (length ?out)"
    if "edge_weights = None"
    using 3 that by (simp add: unit_weights_sum)
  have 5: "outflow files adjacency edge_weights config path < edge_flow_rate config"
    if n: "edge_weights = None" and r: "0 < edge_flow_rate config"
      and u: "\<exists>t \<in> set ?out. \<not> registered files t"
  proof -
    from u have lt: "length ?reg < length ?out"
      by (auto intro: length_filter_less)
    then have "0 < length ?out" by arith
    then have pos: "0 < real (length ?out)" by (simp only: of_nat_0_less_iff)
    from lt have "real (length ?reg) / real (length ?out) < 1"
      using pos by simp
    then have "edge_flow_rate config * (real (length ?reg) / real (length ?out))
        < edge_flow_rate config * 1"
      using r by (rule mult_strict_left_mono)
    then show ?thesis unfolding 4[OF n] by simp
  qed
  from 1 2 3 4 5 show ?thesis by blast
qed


theorem unregistered_targets_count_in_divisor_witness:
  "enable_conservation PressureConfig_default \<and>
   distinct (map fst (hot_and_warm_files quantize_sample)) \<and>
   map_of (hot_and_warm_files quantize_sample) ''a.md'' = Some (file_at quantize_sample (9 / 10)) \<and>
   sends PressureConfig_default (file_at quantize_sample (9 / 10)) \<and>
   0 < edge_flow_rate PressureConfig_default \<and>
   ''ghost.md'' \<in> set (out_edges [(''a.md'', [''b.md'', ''ghost.md''])] ''a.md'') \<and>
   \<not> registered (hot_and_warm_files quantize_sample) ''ghost.md'' \<and>
   map_of (snd (propagate_pressure quantize_sample (hot_and_warm_files quantize_sample)
     [(''a.md'', [''b.md'', ''ghost.md''])] None PressureConfig_default)) ''ghost.md'' = None \<and>
   outflow (hot_and_warm_files quantize_sample) [(''a.md'', [''b.md'', ''ghost.md''])] None
     PressureConfig_default ''a.md'' = 3 / 40 \<and>
   outflow (hot_and_warm_files quantize_sample) [(''a.md'', [''b.md'', ''ghost.md''])] None
     PressureConfig_default ''a.md'' < edge_flow_rate PressureConfig_default"
proof -
  let ?fs = "hot_and_warm_files quantize_sample"
  let ?adj = "[(''a.md'', [''b.md'', ''ghost.md''])]"
  have h1: "enable_conservation PressureConfig_default"
    by (simp add: PressureConfig_default_def)
  have h2: "distinct (map fst ?fs)"
    by (simp add: hot_and_warm_files_def)
  have h3: "map_of ?fs ''a.md'' = Some (file_at quantize_sample (9 / 10))"
    by (simp add: hot_and_warm_files_def)
  have h4: "sends PressureConfig_default (file_at quantize_sample (9 / 10))"
    by (simp add: sends_def PressureConfig_default_def file_at_def)
  have r: "0 < edge_flow_rate PressureConfig_default"
    by (simp add: PressureConfig_default_def)
  have rv: "edge_flow_rate PressureConfig_default = 3 / 20"
    by (simp add: PressureConfig_default_def)
  have o: "out_edges ?adj ''a.md'' = [''b.md'', ''ghost.md'']"
    by (simp add: out_edges_def)
  have g: "\<not> registered ?fs ''ghost.md''"
    by (simp add: registered_def hot_and_warm_files_def)
  have fl: "filter (registered ?fs) [''b.md'', ''ghost.md''] = [''b.md'']"
    by (simp add: registered_def hot_and_warm_files_def)
  have m: "''ghost.md'' \<in> set (out_edges ?adj ''a.md'')"
    unfolding o by simp
  note T = unregistered_targets_count_in_divisor [OF h1 h2 h3 h4, of quantize_sample ?adj None]
  from T g have 1: "map_of (snd (propagate_pressure quantize_sample ?fs ?adj None
      PressureConfig_default)) ''ghost.md'' = None"
    by blast
  from T have "outflow ?fs ?adj None PressureConfig_default ''a.md'' =
      edge_flow_rate PressureConfig_default *
        real (length (filter (registered ?fs) (out_edges ?adj ''a.md''))) /
        real (length (out_edges ?adj ''a.md''))"
    by blast
  then have 2: "outflow ?fs ?adj None PressureConfig_default ''a.md'' = 3 / 40"
    unfolding o fl rv by simp
  from T r g m have 3: "outflow ?fs ?adj None PressureConfig_default ''a.md''
      < edge_flow_rate PressureConfig_default"
    by blast
  from h1 h2 h3 h4 r m g 1 2 3 show ?thesis by (intro conjI)
qed

end
